theory Spec2Isabelle
  imports Complex_Main "HOL-Library.Sublist"
begin

section \<open>Python values, exceptions and strings\<close>

text \<open>
  The service (\<^verbatim>\<open>api/index.py\<close>) is a Flask application around the extraction
  library yt-dlp. The values that flow through it are the JSON-like Python values the
  library returns and the handlers reshape: \<^verbatim>\<open>None\<close>, booleans, integers, strings,
  lists and dictionaries with string keys. A dictionary is an association list in which
  the first binding of a key counts. Floating-point fields are not part of the model.
  A string is a list of characters, each standing for a code point below 256.
\<close>

datatype pyval =
    PNone
  | PBool bool
  | PInt int
  | PStr string
  | PList "pyval list"
  | PDict "(string \<times> pyval) list"

text \<open>
  Exceptions are values. \<open>DownloadError\<close> is yt-dlp's own failure and \<open>LibraryError\<close>
  any other exception raised inside the library; both carry the library's message.
\<close>

datatype exn =
    ValueError
  | TypeError
  | AttributeError
  | IndexError
  | KeyError
  | OverflowError
  | DownloadError string
  | LibraryError string

definition bindE :: "exn + 'a \<Rightarrow> ('a \<Rightarrow> exn + 'b) \<Rightarrow> exn + 'b" where
  "bindE x f = (case x of Inl e \<Rightarrow> Inl e | Inr a \<Rightarrow> f a)"

text \<open>Truthiness, as \<^verbatim>\<open>if x:\<close>, \<^verbatim>\<open>not x\<close> and \<^verbatim>\<open>x or y\<close> test it.\<close>

fun truthy :: "pyval \<Rightarrow> bool" where
  "truthy PNone = False"
| "truthy (PBool b) = b"
| "truthy (PInt i) = (i \<noteq> 0)"
| "truthy (PStr s) = (s \<noteq> [])"
| "truthy (PList xs) = (xs \<noteq> [])"
| "truthy (PDict kvs) = (kvs \<noteq> [])"

definition py_or :: "pyval \<Rightarrow> pyval \<Rightarrow> pyval" where
  "py_or a b = (if truthy a then a else b)"

text \<open>\<^verbatim>\<open>d.get(k)\<close> and \<^verbatim>\<open>d.get(k, default)\<close> on a dictionary.\<close>

definition dict_get_default :: "(string \<times> pyval) list \<Rightarrow> string \<Rightarrow> pyval \<Rightarrow> pyval" where
  "dict_get_default d k dflt = (case map_of d k of None \<Rightarrow> dflt | Some v \<Rightarrow> v)"

definition dict_get :: "(string \<times> pyval) list \<Rightarrow> string \<Rightarrow> pyval" where
  "dict_get d k = dict_get_default d k PNone"

text \<open>
  The same on any value: only a dictionary has the method \<^verbatim>\<open>get\<close>, every other value
  raises \<^verbatim>\<open>AttributeError\<close>.
\<close>

definition py_get_default :: "pyval \<Rightarrow> string \<Rightarrow> pyval \<Rightarrow> exn + pyval" where
  "py_get_default v k dflt =
     (case v of PDict d \<Rightarrow> Inr (dict_get_default d k dflt) | _ \<Rightarrow> Inl AttributeError)"

definition py_get :: "pyval \<Rightarrow> string \<Rightarrow> exn + pyval" where
  "py_get v k = py_get_default v k PNone"

subsection \<open>Decimal numerals: \<^verbatim>\<open>str(int)\<close> and \<^verbatim>\<open>int(str)\<close>\<close>

definition is_decimal :: "char \<Rightarrow> bool" where
  "is_decimal c \<longleftrightarrow> 48 \<le> (of_char c :: nat) \<and> (of_char c :: nat) \<le> 57"

definition digit_val :: "char \<Rightarrow> nat" where
  "digit_val c = of_char c - 48"

definition digit_char :: "nat \<Rightarrow> char" where
  "digit_char d = char_of (48 + d)"

fun str_nat :: "nat \<Rightarrow> string" where
  "str_nat n = (if n < 10 then [digit_char n] else str_nat (n div 10) @ [digit_char (n mod 10)])"

declare str_nat.simps [simp del]

definition str_int :: "int \<Rightarrow> string" where
  "str_int i = (if i < 0 then CHR ''-'' # str_nat (nat (- i)) else str_nat (nat i))"

text \<open>
  White space as \<^verbatim>\<open>str.strip()\<close> and \<^verbatim>\<open>int()\<close> see it, among the code points below
  256: tab to carriage return, the four separators 28 to 31, space, NEL and the
  no-break space.
\<close>

definition py_isspace :: "char \<Rightarrow> bool" where
  "py_isspace c \<longleftrightarrow>
     (let n = (of_char c :: nat)
      in (9 \<le> n \<and> n \<le> 13) \<or> (28 \<le> n \<and> n \<le> 32) \<or> n = 133 \<or> n = 160)"

definition py_strip :: "string \<Rightarrow> string" where
  "py_strip s = rev (dropWhile py_isspace (rev (dropWhile py_isspace s)))"

text \<open>
  \<^verbatim>\<open>int(s)\<close>: white space around the literal is ignored, one sign may lead, and the
  digits may be grouped by single underscores. Anything else raises \<^verbatim>\<open>ValueError\<close>.
  (The interpreter's cap on the number of digits of a literal is not modelled.)
\<close>

fun int_digits :: "nat \<Rightarrow> string \<Rightarrow> nat option" where
  "int_digits acc [] = Some acc"
| "int_digits acc [c] = (if is_decimal c then Some (10 * acc + digit_val c) else None)"
| "int_digits acc (c # d # cs) =
     (if is_decimal c then int_digits (10 * acc + digit_val c) (d # cs)
      else if c = CHR ''_'' \<and> is_decimal d then int_digits (10 * acc + digit_val d) cs
      else None)"

definition int_literal :: "string \<Rightarrow> nat option" where
  "int_literal s =
     (case s of [] \<Rightarrow> None
      | c # cs \<Rightarrow> if is_decimal c then int_digits (digit_val c) cs else None)"

definition py_int :: "string \<Rightarrow> exn + int" where
  "py_int s =
     (let t = py_strip s;
          r = (case t of
                 [] \<Rightarrow> None
               | c # cs \<Rightarrow>
                   if c = CHR ''-'' then map_option (\<lambda>n. - int n) (int_literal cs)
                   else if c = CHR ''+'' then map_option int (int_literal cs)
                   else map_option int (int_literal t))
      in case r of None \<Rightarrow> Inl ValueError | Some i \<Rightarrow> Inr i)"

text \<open>
  \<^verbatim>\<open>str.isdigit()\<close>: the string is not empty and every character is a digit. Below 256
  the digits are \<^verbatim>\<open>0\<close> to \<^verbatim>\<open>9\<close> and the superscripts two, three and one (178, 179, 185),
  which \<^verbatim>\<open>int()\<close> does not accept.
\<close>

definition py_isdigit_char :: "char \<Rightarrow> bool" where
  "py_isdigit_char c \<longleftrightarrow>
     is_decimal c \<or> (of_char c :: nat) = 178 \<or> (of_char c :: nat) = 179 \<or> (of_char c :: nat) = 185"

definition py_isdigit :: "string \<Rightarrow> bool" where
  "py_isdigit s \<longleftrightarrow> s \<noteq> [] \<and> list_all py_isdigit_char s"

text \<open>
  \<^verbatim>\<open>s.split(sep)\<close> with a separator: the pieces between the non-overlapping occurrences
  of \<open>sep\<close>, found from the left; there is always at least one piece. (The handlers only
  split at the literals \<^verbatim>\<open>':'\<close> and \<^verbatim>\<open>'v='\<close>; Python refuses an empty separator.)
\<close>

function py_split :: "string \<Rightarrow> string \<Rightarrow> string list" where
  "py_split sep [] = [[]]"
| "py_split sep (c # cs) =
     (if sep \<noteq> [] \<and> prefix sep (c # cs)
      then [] # py_split sep (drop (length sep) (c # cs))
      else (case py_split sep cs of p # ps \<Rightarrow> (c # p) # ps | [] \<Rightarrow> [[c]]))"
  by pat_completeness auto
termination
  by (relation "measure (\<lambda>(sep, s). length s)") (auto simp: neq_Nil_conv)

section \<open>Result shaper: duration normalisation\<close>

text \<open>
  \<^verbatim>\<open>to_iso_duration(duration_str)\<close>. A falsy argument has no parts. A truthy argument
  that is not a string has no method \<^verbatim>\<open>split\<close>. The three-part and the two-part
  branch convert every part with \<^verbatim>\<open>int()\<close> unguarded; only the one-part branch asks
  \<^verbatim>\<open>isdigit()\<close> first.
\<close>

definition to_iso_duration :: "pyval \<Rightarrow> exn + string" where
  "to_iso_duration duration_str =
     bindE (if \<not> truthy duration_str then Inr []
            else case duration_str of PStr s \<Rightarrow> Inr (py_split '':'' s) | _ \<Rightarrow> Inl AttributeError)
       (\<lambda>parts.
          case parts of
            [h, m, s] \<Rightarrow>
              bindE (py_int h) (\<lambda>hv.
              bindE (py_int m) (\<lambda>mv.
              bindE (py_int s) (\<lambda>sv.
                Inr (''PT'' @ (if hv \<noteq> 0 then str_int hv @ ''H'' else [])
                       @ str_int mv @ ''M'' @ str_int sv @ ''S''))))
          | [m, s] \<Rightarrow>
              bindE (py_int m) (\<lambda>mv.
              bindE (py_int s) (\<lambda>sv.
                Inr (''PT'' @ str_int mv @ ''M'' @ str_int sv @ ''S'')))
          | [p] \<Rightarrow>
              if py_isdigit p
              then bindE (py_int p) (\<lambda>v. Inr (''PT'' @ str_int v @ ''S''))
              else Inr ''PT0S''
          | _ \<Rightarrow> Inr ''PT0S'')"

section \<open>Result shaper: sizes and format lists\<close>

subsection \<open>The floating-point steps of \<^verbatim>\<open>format_size\<close>\<close>

text \<open>
  \<^verbatim>\<open>format_size\<close> divides by the float literals \<^verbatim>\<open>1e9\<close>, \<^verbatim>\<open>1e6\<close> and \<^verbatim>\<open>1e3\<close> and prints
  with \<^verbatim>\<open>:.2f\<close>. A finite double is the rational number it stands for. One operation on
  doubles is the exact operation followed by rounding to the nearest double, ties to the
  even significand (53 bits); \<open>nearest_double\<close> is that rounding, for the normal range
  (subnormal results do not occur here).
\<close>

definition round_half_even :: "rat \<Rightarrow> int" where
  "round_half_even x =
     (let f = \<lfloor>x\<rfloor>; d = x - of_int f
      in if d < 1 / 2 then f else if 1 / 2 < d then f + 1 else if even f then f else f + 1)"

fun bit_length :: "nat \<Rightarrow> nat" where
  "bit_length n = (if n = 0 then 0 else Suc (bit_length (n div 2)))"

declare bit_length.simps [simp del]

definition nearest_double :: "rat \<Rightarrow> rat" where
  "nearest_double x =
     (if x = 0 then 0
      else if x < 0 then - (let a = - x in
        if 1 \<le> a
        then (let b = bit_length (nat \<lfloor>a\<rfloor>)
              in if b \<le> 53 then of_int (round_half_even (a * 2 ^ (53 - b))) / 2 ^ (53 - b)
                 else of_int (round_half_even (a / 2 ^ (b - 53))) * 2 ^ (b - 53))
        else (let c = bit_length (nat \<lfloor>1 / a\<rfloor>)
              in of_int (round_half_even (a * 2 ^ (52 + c))) / 2 ^ (52 + c)))
      else (let a = x in
        if 1 \<le> a
        then (let b = bit_length (nat \<lfloor>a\<rfloor>)
              in if b \<le> 53 then of_int (round_half_even (a * 2 ^ (53 - b))) / 2 ^ (53 - b)
                 else of_int (round_half_even (a / 2 ^ (b - 53))) * 2 ^ (b - 53))
        else (let c = bit_length (nat \<lfloor>1 / a\<rfloor>)
              in of_int (round_half_even (a * 2 ^ (52 + c))) / 2 ^ (52 + c))))"

text \<open>
  \<^verbatim>\<open>float(n)\<close>, as the division \<^verbatim>\<open>n / 1e9\<close> converts its integer operand: an integer
  that rounds to \<open>2 ^ 1024\<close> or beyond raises \<^verbatim>\<open>OverflowError\<close>.
\<close>

definition int_to_float :: "int \<Rightarrow> exn + rat" where
  "int_to_float n =
     (let d = nearest_double (of_int n)
      in if 2 ^ 1024 \<le> \<bar>d\<bar> then Inl OverflowError else Inr d)"

text \<open>
  \<^verbatim>\<open>f"{x:.2f}"\<close>: the decimal with two places nearest to the double \<open>x\<close>, ties to even;
  \<open>two_decimals h\<close> prints \<open>h\<close> hundredths.
\<close>

definition two_decimals :: "nat \<Rightarrow> string" where
  "two_decimals h =
     str_nat (h div 100) @ ''.'' @ [digit_char (h mod 100 div 10), digit_char (h mod 10)]"

definition fmt_2f :: "rat \<Rightarrow> string" where
  "fmt_2f x =
     (let h = nat (round_half_even (\<bar>x\<bar> * 100))
      in (if x < 0 then ''-'' else []) @ two_decimals h)"

subsection \<open>\<^verbatim>\<open>get_size_bytes\<close>, \<^verbatim>\<open>format_size\<close>, \<^verbatim>\<open>build_formats_list\<close>\<close>

definition get_size_bytes :: "(string \<times> pyval) list \<Rightarrow> pyval" where
  "get_size_bytes fmt =
     py_or (dict_get fmt ''filesize'') (py_or (dict_get fmt ''filesize_approx'') (PInt 0))"

text \<open>
  \<^verbatim>\<open>format_size(bytes_val)\<close>. The comparisons of an integer with the float thresholds
  are exact. A boolean is an integer below every threshold and prints as \<^verbatim>\<open>True\<close> or
  \<^verbatim>\<open>False\<close>; \<^verbatim>\<open>None\<close>, strings, lists and dictionaries do not compare with a float.
\<close>

definition format_size :: "pyval \<Rightarrow> exn + string" where
  "format_size bytes_val =
     (case bytes_val of
        PInt n \<Rightarrow>
          if 10 ^ 9 \<le> n
          then bindE (int_to_float n) (\<lambda>x. Inr (fmt_2f (nearest_double (x / 10 ^ 9)) @ '' GB''))
          else if 10 ^ 6 \<le> n
          then bindE (int_to_float n) (\<lambda>x. Inr (fmt_2f (nearest_double (x / 10 ^ 6)) @ '' MB''))
          else if 10 ^ 3 \<le> n
          then bindE (int_to_float n) (\<lambda>x. Inr (fmt_2f (nearest_double (x / 10 ^ 3)) @ '' KB''))
          else Inr (str_int n @ '' B'')
      | PBool b \<Rightarrow> Inr ((if b then ''True'' else ''False'') @ '' B'')
      | _ \<Rightarrow> Inl TypeError)"

text \<open>
  The body of the loop of \<^verbatim>\<open>build_formats_list\<close> for one raw descriptor \<open>f\<close>: \<open>None\<close> is
  \<^verbatim>\<open>continue\<close> (the descriptor is dropped), \<open>Some\<close> the dictionary appended to the list.
  A descriptor that is not a dictionary has no method \<^verbatim>\<open>get\<close>.
\<close>

definition format_kind :: "(string \<times> pyval) list \<Rightarrow> string option" where
  "format_kind f =
     (let has_video = (dict_get f ''vcodec'' \<noteq> PStr ''none'');
          has_audio = (dict_get f ''acodec'' \<noteq> PStr ''none'')
      in if has_video \<and> has_audio then Some ''progressive''
         else if has_video then Some ''video-only''
         else if has_audio then Some ''audio-only''
         else None)"

definition format_entry :: "pyval \<Rightarrow> exn + pyval option" where
  "format_entry fv =
     (case fv of
        PDict f \<Rightarrow>
          (let url_f = dict_get f ''url''
           in if \<not> truthy url_f then Inr None
              else case format_kind f of
                     None \<Rightarrow> Inr None
                   | Some kind \<Rightarrow>
                       (let size = get_size_bytes f
                        in bindE (format_size size) (\<lambda>human.
                             Inr (Some (PDict
                               [(''format_id'', dict_get f ''format_id''),
                                (''ext'', dict_get f ''ext''),
                                (''kind'', PStr kind),
                                (''filesize_bytes'', size),
                                (''filesize'', PStr human),
                                (''width'', dict_get f ''width''),
                                (''height'', dict_get f ''height''),
                                (''fps'', dict_get f ''fps''),
                                (''abr'', dict_get f ''abr''),
                                (''asr'', dict_get f ''asr''),
                                (''url'', url_f)])))))
      | _ \<Rightarrow> Inl AttributeError)"

text \<open>
  Iterating a value with \<^verbatim>\<open>for\<close>: the items of a list, the characters of a string, the
  keys of a dictionary; the other values are not iterable.
\<close>

definition py_iter :: "pyval \<Rightarrow> exn + pyval list" where
  "py_iter v =
     (case v of
        PList xs \<Rightarrow> Inr xs
      | PStr s \<Rightarrow> Inr (map (\<lambda>c. PStr [c]) s)
      | PDict d \<Rightarrow> Inr (map (\<lambda>kv. PStr (fst kv)) d)
      | _ \<Rightarrow> Inl TypeError)"

fun formats_loop :: "pyval list \<Rightarrow> pyval list \<Rightarrow> exn + pyval list" where
  "formats_loop fmts [] = Inr fmts"
| "formats_loop fmts (f # fs) =
     bindE (format_entry f) (\<lambda>r.
       case r of None \<Rightarrow> formats_loop fmts fs
               | Some d \<Rightarrow> formats_loop (fmts @ [d]) fs)"

definition build_formats_list :: "pyval \<Rightarrow> exn + pyval list" where
  "build_formats_list info =
     bindE (py_get_default info ''formats'' (PList [])) (\<lambda>raw.
     bindE (py_iter raw) (\<lambda>fs. formats_loop [] fs))"

subsection \<open>The classification in the specification's words\<close>

text \<open>
  The specification classifies a raw descriptor by its stream URL and by whether its
  video and its audio codec are valid. A codec field is valid unless it holds the
  library's sentinel string \<^verbatim>\<open>none\<close>; a stream URL is present when the field
  \<^verbatim>\<open>url\<close> is truthy. \<open>spec_kind\<close> follows these words, to be compared with what
  \<open>build_formats_list\<close> returns; \<open>kinds_of\<close> reads the kinds off a built list.
\<close>

definition has_stream_url :: "(string \<times> pyval) list \<Rightarrow> bool" where
  "has_stream_url d \<longleftrightarrow> truthy (dict_get d ''url'')"

definition valid_codec :: "(string \<times> pyval) list \<Rightarrow> string \<Rightarrow> bool" where
  "valid_codec d field \<longleftrightarrow> dict_get d field \<noteq> PStr ''none''"

definition spec_kind :: "(string \<times> pyval) list \<Rightarrow> string option" where
  "spec_kind d =
     (if has_stream_url d
      then (case (valid_codec d ''vcodec'', valid_codec d ''acodec'') of
              (True, True) \<Rightarrow> Some ''progressive''
            | (True, False) \<Rightarrow> Some ''video-only''
            | (False, True) \<Rightarrow> Some ''audio-only''
            | (False, False) \<Rightarrow> None)
      else None)"

definition kinds_of :: "pyval list \<Rightarrow> (exn + pyval) list" where
  "kinds_of out = map (\<lambda>e. py_get e ''kind'') out"

section \<open>Properties of duration normalisation\<close>

lemma py_split_colon_free:
  "CHR '':'' \<notin> set a \<Longrightarrow> py_split '':'' a = [a]"
  by (induction a) auto

lemma py_split_colon_first:
  "CHR '':'' \<notin> set a \<Longrightarrow> py_split '':'' (a @ CHR '':'' # b) = a # py_split '':'' b"
  by (induction a) auto

lemma py_int_zero: "py_int ''0'' = Inr 0"
  by code_simp

text \<open>
  Claim C3. Duration normalisation is to map every valid string of shape \<open>H:M:S\<close>,
  \<open>M:S\<close> or \<open>S\<close> to its ISO-8601 duration and every malformed or empty string to the
  zero duration \<^verbatim>\<open>PT0S\<close>. The spec's examples evaluate as stated, and the empty string,
  a one-part string that is not a number and a string of four parts give \<^verbatim>\<open>PT0S\<close>.
  But the malformed two-part string \<^verbatim>\<open>a:b\<close> and the malformed three-part string
  \<^verbatim>\<open>1:xx:03\<close> raise \<^verbatim>\<open>ValueError\<close>: only the one-part branch is guarded by
  \<^verbatim>\<open>isdigit()\<close>.
\<close>

theorem to_iso_duration_malformed_raises:
  "to_iso_duration (PStr ''a:b'') = Inl ValueError
   \<and> to_iso_duration (PStr ''1:xx:03'') = Inl ValueError
   \<and> to_iso_duration (PStr ''abc'') = Inr ''PT0S''
   \<and> to_iso_duration (PStr ''1:2:3:4'') = Inr ''PT0S''
   \<and> to_iso_duration (PStr []) = Inr ''PT0S''
   \<and> to_iso_duration (PStr ''1:02:03'') = Inr ''PT1H2M3S''
   \<and> to_iso_duration (PStr ''5:09'') = Inr ''PT5M9S''
   \<and> to_iso_duration (PStr ''45'') = Inr ''PT45S''"
  by code_simp

text \<open>
  Claim C10. The hour component is left out when it is zero: for all minute and second
  strings \<open>m\<close> and \<open>s\<close> (strings without a colon), normalising \<^verbatim>\<open>0:m:s\<close> gives the same
  outcome as normalising \<^verbatim>\<open>m:s\<close>, be it a duration or the \<^verbatim>\<open>ValueError\<close> of a part
  that is not a number.
\<close>

theorem zero_hour_same_as_two_part:
  assumes "CHR '':'' \<notin> set m" and "CHR '':'' \<notin> set s"
  shows "to_iso_duration (PStr (''0:'' @ m @ '':'' @ s)) = to_iso_duration (PStr (m @ '':'' @ s))"
proof -
  have three: "py_split '':'' (''0:'' @ m @ '':'' @ s) = [''0'', m, s]"
    using py_split_colon_first [of "''0''" "m @ '':'' @ s"]
      py_split_colon_first [OF assms(1), of s] py_split_colon_free [OF assms(2)]
    by simp
  have two: "py_split '':'' (m @ '':'' @ s) = [m, s]"
    using py_split_colon_first [OF assms(1), of s] py_split_colon_free [OF assms(2)]
    by simp
  show ?thesis
    using three two
    by (simp add: to_iso_duration_def bindE_def py_int_zero split: sum.splits)
qed

theorem zero_hour_same_as_two_part_witness:
  "to_iso_duration (PStr ''0:05:09'') = Inr ''PT5M9S''
   \<and> to_iso_duration (PStr ''05:09'') = Inr ''PT5M9S''"
proof -
  have a: "CHR '':'' \<notin> set ''05''" by simp
  have b: "CHR '':'' \<notin> set ''09''" by simp
  have "to_iso_duration (PStr ''05:09'') = Inr ''PT5M9S''" by code_simp
  with zero_hour_same_as_two_part [OF a b] show ?thesis by simp
qed

section \<open>Properties of size formatting\<close>

subsection \<open>Rounding to a double\<close>

lemma bit_length_bound: "n < 2 ^ bit_length n"
proof (induction n rule: bit_length.induct)
  case (1 n)
  show ?case
  proof (cases "n = 0")
    case True
    then show ?thesis by (simp add: bit_length.simps)
  next
    case False
    with 1 have "n div 2 < 2 ^ bit_length (n div 2)" by simp
    then have "n < 2 * 2 ^ bit_length (n div 2)" by linarith
    with False show ?thesis by (subst bit_length.simps) simp
  qed
qed

lemma bit_length_le: "n < 2 ^ k \<Longrightarrow> bit_length n \<le> k"
proof (induction k arbitrary: n)
  case 0
  then show ?case by (simp add: bit_length.simps)
next
  case (Suc k)
  show ?case
  proof (cases "n = 0")
    case True
    then show ?thesis by (simp add: bit_length.simps)
  next
    case False
    from Suc.prems have "n div 2 < 2 ^ k" by simp
    then have "bit_length (n div 2) \<le> k" by (rule Suc.IH)
    with False show ?thesis by (subst bit_length.simps) simp
  qed
qed

lemma round_half_even_of_int: "round_half_even (of_int i) = i"
  by (simp add: round_half_even_def)

lemma round_half_even_nonneg: "0 \<le> x \<Longrightarrow> 0 \<le> round_half_even x"
  by (auto simp: round_half_even_def Let_def)

lemma round_half_even_le:
  assumes "x < of_int k + 1 / 2"
  shows "round_half_even x \<le> k"
proof -
  have fl: "\<lfloor>x\<rfloor> \<le> k" using assms by (simp add: floor_le_iff)
  show ?thesis
  proof (cases "\<lfloor>x\<rfloor> = k")
    case True
    then have "x - of_int \<lfloor>x\<rfloor> < 1 / 2" using assms by simp
    with True show ?thesis by (simp add: round_half_even_def Let_def)
  next
    case False
    with fl have "\<lfloor>x\<rfloor> + 1 \<le> k" by simp
    then show ?thesis using fl by (auto simp: round_half_even_def Let_def)
  qed
qed

lemma nearest_double_nonneg: "0 \<le> x \<Longrightarrow> 0 \<le> nearest_double x"
  by (auto simp: nearest_double_def Let_def round_half_even_nonneg
      intro!: divide_nonneg_nonneg mult_nonneg_nonneg)

lemma scaled_le:
  assumes "(x::rat) < 2 ^ 53"
  shows "(of_int (round_half_even x) :: rat) * 2 ^ s \<le> 2 ^ (s + 53)"
proof -
  from assms have "x < of_int (2 ^ 53) + 1 / 2" by simp
  then have "round_half_even x \<le> 2 ^ 53" by (rule round_half_even_le)
  then have "(of_int (round_half_even x) :: rat) \<le> of_int (2 ^ 53)"
    by (simp only: of_int_le_iff)
  then have "(of_int (round_half_even x) :: rat) \<le> 2 ^ 53" by simp
  then have "(of_int (round_half_even x) :: rat) * 2 ^ s \<le> 2 ^ 53 * 2 ^ s"
    by (simp add: mult_right_mono)
  also have "\<dots> = 2 ^ (s + 53)" by (simp add: power_add)
  finally show ?thesis .
qed

lemma scaled_less:
  assumes "(x::rat) < 2 ^ 53 - 1 / 2"
  shows "(of_int (round_half_even x) :: rat) * 2 ^ s < 2 ^ (s + 53)"
proof -
  from assms have "x < of_int (2 ^ 53 - 1) + 1 / 2" by simp
  then have "round_half_even x \<le> 2 ^ 53 - 1" by (rule round_half_even_le)
  then have "(of_int (round_half_even x) :: rat) \<le> of_int (2 ^ 53 - 1)"
    by (simp only: of_int_le_iff)
  then have "(of_int (round_half_even x) :: rat) \<le> 2 ^ 53 - 1" by simp
  then have "(of_int (round_half_even x) :: rat) * 2 ^ s \<le> (2 ^ 53 - 1) * 2 ^ s"
    by (simp add: mult_right_mono)
  also have "\<dots> < 2 ^ 53 * 2 ^ s" by (simp add: mult_strict_right_mono)
  also have "\<dots> = 2 ^ (s + 53)" by (simp add: power_add)
  finally show ?thesis .
qed

lemma of_int_less_pow2: "(of_int n :: rat) < 2 ^ k \<longleftrightarrow> n < 2 ^ k"
proof -
  have "(of_int n :: rat) < of_int (2 ^ k) \<longleftrightarrow> n < 2 ^ k" by (simp only: of_int_less_iff)
  then show ?thesis by simp
qed

lemma nearest_double_of_int:
  assumes "1 \<le> n" and "b = bit_length (nat n)"
  shows "nearest_double (of_int n) =
      (if b \<le> 53 then of_int n
       else of_int (round_half_even (of_int n / 2 ^ (b - 53))) * 2 ^ (b - 53))"
proof -
  have "of_int n * (2::rat) ^ (53 - b) = of_int (n * 2 ^ (53 - b))" by simp
  then have "round_half_even (of_int n * 2 ^ (53 - b)) = n * 2 ^ (53 - b)"
    by (simp only: round_half_even_of_int)
  then show ?thesis
    using assms by (simp add: nearest_double_def Let_def)
qed

lemma nearest_double_int_bound:
  fixes n :: int and e :: nat
  assumes "1 \<le> n" and "(of_int n :: rat) < 2 ^ (e + 54) - 2 ^ e"
  shows "nearest_double (of_int n) < 2 ^ (e + 54)"
proof -
  define b where "b = bit_length (nat n)"
  have "(0::rat) < 2 ^ e" by simp
  with assms(2) have n_lt: "(of_int n :: rat) < 2 ^ (e + 54)" by linarith
  then have "n < 2 ^ (e + 54)" by (simp only: of_int_less_pow2)
  then have "nat n < 2 ^ (e + 54)" using assms(1) by (simp add: nat_less_iff)
  then have b_le: "b \<le> e + 54" unfolding b_def by (rule bit_length_le)
  have "nat n < 2 ^ b" unfolding b_def by (rule bit_length_bound)
  then have "n < 2 ^ b" using assms(1) by (simp add: nat_less_iff)
  then have n_b: "(of_int n :: rat) < 2 ^ b" by (simp only: of_int_less_pow2)
  note nd = nearest_double_of_int [OF assms(1) b_def]
  show ?thesis
  proof (cases "b \<le> 53")
    case True
    with nd n_lt show ?thesis by simp
  next
    case False
    define s where "s = b - 53"
    have b_s: "b = s + 53" using False by (simp add: s_def)
    have val: "nearest_double (of_int n) = of_int (round_half_even (of_int n / 2 ^ s)) * 2 ^ s"
      using False nd by (simp add: s_def)
    show ?thesis
    proof (cases "b = e + 54")
      case True
      then have s_e: "s = e + 1" using b_s by simp
      have "(of_int n :: rat) / 2 ^ s < (2 ^ (e + 54) - 2 ^ e) / 2 ^ s"
        using assms(2) by (simp add: divide_strict_right_mono)
      also have "\<dots> = 2 ^ 53 - 1 / 2"
        by (simp add: s_e diff_divide_distrib power_add)
      finally have "(of_int (round_half_even (of_int n / 2 ^ s)) :: rat) * 2 ^ s < 2 ^ (s + 53)"
        by (rule scaled_less)
      also have "s + 53 = e + 54" by (simp add: s_e)
      finally show ?thesis by (simp only: val)
    next
      case False
      with b_le have "b \<le> e + 53" by simp
      then have s_le: "s + 53 \<le> e + 53" using b_s by simp
      have "(of_int n :: rat) / 2 ^ s < 2 ^ b / 2 ^ s"
        using n_b by (simp add: divide_strict_right_mono)
      also have "\<dots> = 2 ^ 53" by (simp add: b_s power_add)
      finally have "(of_int (round_half_even (of_int n / 2 ^ s)) :: rat) * 2 ^ s \<le> 2 ^ (s + 53)"
        by (rule scaled_le)
      also have "\<dots> \<le> 2 ^ (e + 53)" using s_le by (simp add: power_increasing)
      also have "\<dots> < 2 ^ (e + 54)" by (simp add: power_strict_increasing)
      finally show ?thesis by (simp only: val)
    qed
  qed
qed

lemma bit_length_lower: "n \<noteq> 0 \<Longrightarrow> 2 ^ (bit_length n - 1) \<le> n"
proof (induction n rule: bit_length.induct)
  case (1 n)
  show ?case
  proof (cases "n div 2 = 0")
    case True
    with 1 have "n = 1" by (simp add: div_eq_0_iff) 
    then show ?thesis by (simp add: bit_length.simps)
  next
    case False
    with 1 have ih: "2 ^ (bit_length (n div 2) - 1) \<le> n div 2" by simp
    from False have pos: "bit_length (n div 2) \<noteq> 0" by (subst bit_length.simps) simp
    have "bit_length n = Suc (bit_length (n div 2))" using 1(2) by (subst bit_length.simps) simp
    then have "(2::nat) ^ (bit_length n - 1) = 2 * 2 ^ (bit_length (n div 2) - 1)"
      using pos by (cases "bit_length (n div 2)") simp_all
    also have "\<dots> \<le> 2 * (n div 2)" using ih by simp
    also have "\<dots> \<le> n" by simp
    finally show ?thesis .
  qed
qed

lemma round_half_even_close: "\<bar>of_int (round_half_even x) - x\<bar> \<le> 1 / 2"
proof -
  have bounds: "of_int \<lfloor>x\<rfloor> \<le> x" "x < of_int \<lfloor>x\<rfloor> + 1" by linarith+
  consider "x - of_int \<lfloor>x\<rfloor> < 1 / 2" | "1 / 2 < x - of_int \<lfloor>x\<rfloor>"
    | "x - of_int \<lfloor>x\<rfloor> = 1 / 2" by linarith
  then show ?thesis
  proof cases
    case 1
    then have "round_half_even x = \<lfloor>x\<rfloor>" by (simp add: round_half_even_def Let_def)
    with 1 bounds show ?thesis by simp
  next
    case 2
    then have "round_half_even x = \<lfloor>x\<rfloor> + 1" by (simp add: round_half_even_def Let_def)
    with 2 bounds show ?thesis by simp
  next
    case 3
    then have "round_half_even x = \<lfloor>x\<rfloor> \<or> round_half_even x = \<lfloor>x\<rfloor> + 1"
      by (simp add: round_half_even_def Let_def)
    with 3 bounds show ?thesis by auto
  qed
qed

lemma scale_up_close:
  assumes "(0::rat) < m"
  shows "\<bar>of_int (round_half_even (x * m)) / m - x\<bar> \<le> 1 / (2 * m)"
proof -
  have "of_int (round_half_even (x * m)) / m - x = (of_int (round_half_even (x * m)) - x * m) / m"
    using assms by (simp add: field_simps)
  then have "\<bar>of_int (round_half_even (x * m)) / m - x\<bar>
      = \<bar>of_int (round_half_even (x * m)) - x * m\<bar> / m"
    using assms by (simp add: abs_divide)
  also have "\<dots> \<le> (1 / 2) / m"
    using assms round_half_even_close [of "x * m"] by (intro divide_right_mono) simp_all
  finally show ?thesis by simp
qed

lemma scale_down_close:
  assumes "(0::rat) < m"
  shows "\<bar>of_int (round_half_even (x / m)) * m - x\<bar> \<le> m / 2"
proof -
  have "of_int (round_half_even (x / m)) * m - x = (of_int (round_half_even (x / m)) - x / m) * m"
    using assms by (simp add: field_simps)
  then have "\<bar>of_int (round_half_even (x / m)) * m - x\<bar>
      = \<bar>of_int (round_half_even (x / m)) - x / m\<bar> * m"
    using assms by (simp add: abs_mult)
  also have "\<dots> \<le> (1 / 2) * m"
    using assms round_half_even_close [of "x / m"] by (intro mult_right_mono) simp_all
  finally show ?thesis by simp
qed

lemma nearest_double_close:
  assumes "0 < x"
  shows "\<bar>nearest_double x - x\<bar> \<le> x / 2 ^ 53"
proof (cases "1 \<le> x")
  case True
  define b where "b = bit_length (nat \<lfloor>x\<rfloor>)"
  from True have fl: "1 \<le> \<lfloor>x\<rfloor>" by simp
  then have "nat \<lfloor>x\<rfloor> \<noteq> 0" by simp
  then have "2 ^ (b - 1) \<le> nat \<lfloor>x\<rfloor>" unfolding b_def by (rule bit_length_lower)
  then have "(2::int) ^ (b - 1) \<le> \<lfloor>x\<rfloor>" using fl by (simp add: le_nat_iff)
  then have "(of_int (2 ^ (b - 1)) :: rat) \<le> of_int \<lfloor>x\<rfloor>" by (simp only: of_int_le_iff)
  moreover have "of_int \<lfloor>x\<rfloor> \<le> x" by simp
  ultimately have "(of_int (2 ^ (b - 1)) :: rat) \<le> x" by (rule order_trans)
  then have low: "(2::rat) ^ (b - 1) \<le> x" by simp
  have b_pos: "b \<noteq> 0" using \<open>nat \<lfloor>x\<rfloor> \<noteq> 0\<close> unfolding b_def by (subst bit_length.simps) simp
  show ?thesis
  proof (cases "b \<le> 53")
    case le: True
    have nd: "nearest_double x = of_int (round_half_even (x * 2 ^ (53 - b))) / 2 ^ (53 - b)"
      using assms True le by (simp add: nearest_double_def Let_def b_def)
    have "(2::rat) ^ 53 = 2 ^ ((53 - b) + 1 + (b - 1))" using le b_pos by simp
    then have split: "(2::rat) ^ 53 = 2 * 2 ^ (53 - b) * 2 ^ (b - 1)"
      by (simp only: power_add) simp
    have "\<bar>nearest_double x - x\<bar> \<le> 1 / (2 * 2 ^ (53 - b))"
      unfolding nd by (rule scale_up_close) simp
    also have "\<dots> = 2 ^ (b - 1) / 2 ^ 53" by (simp only: split) simp
    also have "\<dots> \<le> x / 2 ^ 53" using low by (simp add: divide_right_mono)
    finally show ?thesis .
  next
    case gt: False
    have nd: "nearest_double x = of_int (round_half_even (x / 2 ^ (b - 53))) * 2 ^ (b - 53)"
      using assms True gt by (simp add: nearest_double_def Let_def b_def)
    have "b - 1 = (b - 53) + 52" using gt by simp
    then have split: "(2::rat) ^ (b - 1) = 2 ^ (b - 53) * 2 ^ 52" by (simp only: power_add)
    have "\<bar>nearest_double x - x\<bar> \<le> 2 ^ (b - 53) / 2"
      unfolding nd by (rule scale_down_close) simp
    also have "\<dots> = 2 ^ (b - 1) / 2 ^ 53" by (simp only: split) simp
    also have "\<dots> \<le> x / 2 ^ 53" using low by (simp add: divide_right_mono)
    finally show ?thesis .
  qed
next
  case False
  define c where "c = bit_length (nat \<lfloor>1 / x\<rfloor>)"
  have nd: "nearest_double x = of_int (round_half_even (x * 2 ^ (52 + c))) / 2 ^ (52 + c)"
    using assms False by (simp add: nearest_double_def Let_def c_def)
  have "nat \<lfloor>1 / x\<rfloor> < 2 ^ c" unfolding c_def by (rule bit_length_bound)
  then have "\<lfloor>1 / x\<rfloor> < 2 ^ c" by (simp add: nat_less_iff)
  then have "\<lfloor>1 / x\<rfloor> + 1 \<le> 2 ^ c" by simp
  then have "(of_int (\<lfloor>1 / x\<rfloor> + 1) :: rat) \<le> of_int (2 ^ c)" by (simp only: of_int_le_iff)
  moreover have "1 / x < of_int (\<lfloor>1 / x\<rfloor> + 1)" by linarith
  ultimately have "1 / x < 2 ^ c" by simp
  then have low: "1 / 2 ^ c \<le> x" using assms by (simp add: field_simps)
  have "\<bar>nearest_double x - x\<bar> \<le> 1 / (2 * 2 ^ (52 + c))"
    unfolding nd by (rule scale_up_close) simp
  also have "\<dots> = (1 / 2 ^ c) / 2 ^ 53" by (simp add: power_add)
  also have "\<dots> \<le> x / 2 ^ 53" using low by (simp add: divide_right_mono)
  finally show ?thesis .
qed

lemma int_to_float_ok:
  assumes "1 \<le> n" and "n < 2 ^ 1024 - 2 ^ 970"
  shows "int_to_float n = Inr (nearest_double (of_int n))"
proof -
  from assms(2) have "(of_int n :: rat) < of_int (2 ^ 1024 - 2 ^ 970)"
    by (simp only: of_int_less_iff)
  then have "(of_int n :: rat) < 2 ^ (970 + 54) - 2 ^ 970" by simp
  with assms(1) have "nearest_double (of_int n) < 2 ^ (970 + 54)"
    by (rule nearest_double_int_bound)
  then have up: "nearest_double (of_int n) < 2 ^ 1024" by simp
  have "0 \<le> nearest_double (of_int n)"
    using assms(1) by (intro nearest_double_nonneg) simp
  with up show ?thesis by (simp add: int_to_float_def Let_def)
qed

lemma fmt_2f_close:
  assumes "0 \<le> d"
  shows "\<exists>h. fmt_2f d = two_decimals h \<and> \<bar>of_nat h / 100 - d\<bar> \<le> 1 / 200"
proof -
  define h where "h = nat (round_half_even (d * 100))"
  have "0 \<le> round_half_even (d * 100)" using assms by (intro round_half_even_nonneg) simp
  then have h: "(of_nat h :: rat) = of_int (round_half_even (d * 100))" by (simp add: h_def)
  have "\<bar>of_int (round_half_even (d * 100)) / 100 - d\<bar> \<le> 1 / (2 * 100)"
    by (rule scale_up_close) simp
  then have "\<bar>of_nat h / 100 - d\<bar> \<le> 1 / 200" by (simp add: h)
  moreover have "fmt_2f d = two_decimals h" using assms by (simp add: fmt_2f_def h_def)
  ultimately show ?thesis by blast
qed

lemma shown_close:
  fixes u :: rat
  assumes "1 \<le> n" and "n < 2 ^ 1024 - 2 ^ 970" and "0 < u"
  shows "\<exists>h. bindE (int_to_float n) (\<lambda>x. Inr (fmt_2f (nearest_double (x / u)) @ unit))
             = Inr (two_decimals h @ unit)
           \<and> \<bar>of_nat h / 100 - of_int n / u\<bar> \<le> 1 / 200 + (of_int n / u) / 2 ^ 51"
proof -
  define r :: rat where "r = of_int n"
  define x where "x = nearest_double r"
  define q where "q = x / u"
  define d where "d = nearest_double q"
  have r_pos: "1 \<le> r" using assms(1) by (simp add: r_def)
  have f: "int_to_float n = Inr x" unfolding x_def r_def by (rule int_to_float_ok [OF assms(1,2)])
  have xr: "\<bar>x - r\<bar> \<le> r / 2 ^ 53" unfolding x_def using r_pos by (intro nearest_double_close) simp
  have "r / 2 ^ 53 \<le> r / 2" using r_pos by (intro divide_left_mono) simp_all
  with xr have x_lo: "r / 2 \<le> x" and x_hi: "x \<le> 2 * r" using r_pos by linarith+
  then have x_pos: "0 < x" using r_pos by linarith
  then have q_pos: "0 < q" using assms(3) by (simp add: q_def)
  have dq: "\<bar>d - q\<bar> \<le> q / 2 ^ 53" unfolding d_def using q_pos by (rule nearest_double_close)
  have "q \<le> 2 * r / u" using x_hi assms(3) by (simp add: q_def divide_right_mono)
  then have "q / 2 ^ 53 \<le> (2 * r / u) / 2 ^ 53" by (intro divide_right_mono) simp_all
  with dq have dq': "\<bar>d - q\<bar> \<le> 2 * (r / u) / 2 ^ 53" by simp
  have "q - r / u = (x - r) / u" by (simp add: q_def diff_divide_distrib)
  then have "\<bar>q - r / u\<bar> = \<bar>x - r\<bar> / u" using assms(3) by (simp add: abs_divide)
  also have "\<dots> \<le> (r / 2 ^ 53) / u" using xr assms(3) by (intro divide_right_mono) simp_all
  finally have qr: "\<bar>q - r / u\<bar> \<le> (r / u) / 2 ^ 53" by simp
  have ru: "0 \<le> r / u" using r_pos assms(3) by simp
  have "\<bar>d - r / u\<bar> \<le> 3 * (r / u) / 2 ^ 53" using dq' qr by (simp add: field_simps)
  also have "\<dots> \<le> 4 * (r / u) / 2 ^ 53" using ru by (intro divide_right_mono) simp_all
  also have "\<dots> = (r / u) / 2 ^ 51" by simp
  finally have dr: "\<bar>d - r / u\<bar> \<le> (r / u) / 2 ^ 51" .
  have "0 \<le> d" unfolding d_def using q_pos by (intro nearest_double_nonneg) simp
  from fmt_2f_close [OF this] obtain h where
    h: "fmt_2f d = two_decimals h" "\<bar>of_nat h / 100 - d\<bar> \<le> 1 / 200" by blast
  have "\<bar>of_nat h / 100 - r / u\<bar> \<le> 1 / 200 + (r / u) / 2 ^ 51" using h(2) dr by linarith
  moreover have "bindE (int_to_float n) (\<lambda>x. Inr (fmt_2f (nearest_double (x / u)) @ unit))
      = Inr (two_decimals h @ unit)"
    using f h(1) by (simp add: bindE_def d_def q_def)
  ultimately show ?thesis unfolding r_def by blast
qed

lemma bit_length_pow2: "bit_length (2 ^ k) = Suc k"
proof (induction k)
  case 0
  show ?case by (simp add: bit_length.simps)
next
  case (Suc k)
  have "bit_length (2 ^ Suc k) = Suc (bit_length (2 ^ Suc k div 2))"
    by (subst bit_length.simps) simp
  with Suc show ?case by simp
qed

lemma nearest_double_pow2:
  assumes "53 \<le> k"
  shows "nearest_double (of_int (2 ^ k)) = 2 ^ k"
proof -
  have one: "(1::int) \<le> 2 ^ k" by simp
  have b: "Suc k = bit_length (nat (2 ^ k))"
    by (simp add: bit_length_pow2 nat_power_eq)
  have "(2::rat) ^ k = 2 ^ ((Suc k - 53) + 52)" using assms by simp
  then have split: "(2::rat) ^ k = 2 ^ (Suc k - 53) * 2 ^ 52" by (simp only: power_add)
  have "(of_int (2 ^ k) :: rat) / 2 ^ (Suc k - 53) = 2 ^ k / 2 ^ (Suc k - 53)" by simp
  also have "\<dots> = 2 ^ 52" by (simp only: split) simp
  also have "\<dots> = of_int (2 ^ 52)" by simp
  finally have "round_half_even (of_int (2 ^ k) / 2 ^ (Suc k - 53)) = 2 ^ 52"
    by (simp only: round_half_even_of_int)
  then have "nearest_double (of_int (2 ^ k)) = of_int (2 ^ 52) * 2 ^ (Suc k - 53)"
    using nearest_double_of_int [OF one b] assms by simp
  also have "\<dots> = 2 ^ k" by (simp only: split) simp
  finally show ?thesis .
qed

subsection \<open>The tiers of \<^verbatim>\<open>format_size\<close>\<close>

text \<open>
  Claim C5, as stated: for every non-negative byte count, size formatting picks the
  decimal unit tier with two places above the byte tier. The division converts the
  integer to a float first, so a byte count that rounds to \<open>2 ^ 1024\<close> raises
  \<^verbatim>\<open>OverflowError\<close>, as \<open>2 ^ 1024\<close> itself does.
\<close>

theorem format_size_overflow:
  "format_size (PInt (2 ^ 1024)) = Inl OverflowError"
proof -
  have "nearest_double (of_int (2 ^ 1024)) = 2 ^ 1024" by (rule nearest_double_pow2) simp
  then have "int_to_float (2 ^ 1024) = Inl OverflowError"
    by (simp add: int_to_float_def Let_def)
  moreover have "(10::int) ^ 9 \<le> 2 ^ 1024" by simp
  ultimately show ?thesis by (simp add: format_size_def bindE_def)
qed

text \<open>
  Claim C5, amended: for every non-negative byte count \<open>n\<close> below \<open>2 ^ 1024 - 2 ^ 970\<close>,
  \<^verbatim>\<open>format_size\<close> returns a string of the tier that the thresholds 1000, 1000000 and
  1000000000 give: below 1000 the integer itself with the unit \<^verbatim>\<open>B\<close>; above, a number
  with exactly two decimal places and the unit \<^verbatim>\<open>KB\<close>, \<^verbatim>\<open>MB\<close> or \<^verbatim>\<open>GB\<close>, and that
  number (\<open>h\<close> hundredths) is the byte count divided by the unit up to half a hundredth
  and the rounding of the two float operations.
\<close>

theorem format_size_tiers:
  assumes "0 \<le> n" and "n < 2 ^ 1024 - 2 ^ 970"
  shows "(n < 10 ^ 3 \<longrightarrow> format_size (PInt n) = Inr (str_int n @ '' B''))
    \<and> (10 ^ 3 \<le> n \<and> n < 10 ^ 6 \<longrightarrow>
         (\<exists>h. format_size (PInt n) = Inr (two_decimals h @ '' KB'')
            \<and> \<bar>of_nat h / 100 - (of_int n :: rat) / 10 ^ 3\<bar>
                 \<le> 1 / 200 + (of_int n / 10 ^ 3) / 2 ^ 51))
    \<and> (10 ^ 6 \<le> n \<and> n < 10 ^ 9 \<longrightarrow>
         (\<exists>h. format_size (PInt n) = Inr (two_decimals h @ '' MB'')
            \<and> \<bar>of_nat h / 100 - (of_int n :: rat) / 10 ^ 6\<bar>
                 \<le> 1 / 200 + (of_int n / 10 ^ 6) / 2 ^ 51))
    \<and> (10 ^ 9 \<le> n \<longrightarrow>
         (\<exists>h. format_size (PInt n) = Inr (two_decimals h @ '' GB'')
            \<and> \<bar>of_nat h / 100 - (of_int n :: rat) / 10 ^ 9\<bar>
                 \<le> 1 / 200 + (of_int n / 10 ^ 9) / 2 ^ 51))"
proof (intro conjI impI)
  assume "n < 10 ^ 3"
  then show "format_size (PInt n) = Inr (str_int n @ '' B'')"
    by (simp add: format_size_def)
next
  assume a: "10 ^ 3 \<le> n \<and> n < 10 ^ 6"
  then have "1 \<le> n" by simp
  from shown_close [OF this assms(2), of "10 ^ 3" "'' KB''"] a
  show "\<exists>h. format_size (PInt n) = Inr (two_decimals h @ '' KB'')
            \<and> \<bar>of_nat h / 100 - (of_int n :: rat) / 10 ^ 3\<bar>
                 \<le> 1 / 200 + (of_int n / 10 ^ 3) / 2 ^ 51"
    by (simp add: format_size_def)
next
  assume a: "10 ^ 6 \<le> n \<and> n < 10 ^ 9"
  then have "1 \<le> n" by simp
  from shown_close [OF this assms(2), of "10 ^ 6" "'' MB''"] a
  show "\<exists>h. format_size (PInt n) = Inr (two_decimals h @ '' MB'')
            \<and> \<bar>of_nat h / 100 - (of_int n :: rat) / 10 ^ 6\<bar>
                 \<le> 1 / 200 + (of_int n / 10 ^ 6) / 2 ^ 51"
    by (simp add: format_size_def)
next
  assume a: "10 ^ 9 \<le> n"
  then have "1 \<le> n" by simp
  from shown_close [OF this assms(2), of "10 ^ 9" "'' GB''"] a
  show "\<exists>h. format_size (PInt n) = Inr (two_decimals h @ '' GB'')
            \<and> \<bar>of_nat h / 100 - (of_int n :: rat) / 10 ^ 9\<bar>
                 \<le> 1 / 200 + (of_int n / 10 ^ 9) / 2 ^ 51"
    by (simp add: format_size_def)
qed

lemma digit_chars:
  "digit_char 0 = CHR ''0''" "digit_char (Suc 0) = CHR ''1''" "digit_char 2 = CHR ''2''"
  "digit_char 3 = CHR ''3''" "digit_char 4 = CHR ''4''" "digit_char 5 = CHR ''5''"
  "digit_char 6 = CHR ''6''" "digit_char 7 = CHR ''7''" "digit_char 8 = CHR ''8''"
  "digit_char 9 = CHR ''9''"
  by code_simp+

lemma int_to_float_exact:
  assumes "1 \<le> n" and "n < 2 ^ 53"
  shows "int_to_float n = Inr (of_int n)"
proof -
  from assms have "nat n < 2 ^ 53" by (simp add: nat_less_iff)
  then have "bit_length (nat n) \<le> 53" by (rule bit_length_le)
  with nearest_double_of_int [OF assms(1) refl]
  have nd: "nearest_double (of_int n) = of_int n" by simp
  have "(of_int n :: rat) < 2 ^ 53" using assms(2) by (simp only: of_int_less_pow2)
  also have "\<dots> < 2 ^ 1024" by (intro power_strict_increasing) simp_all
  finally have "\<bar>of_int n :: rat\<bar> < 2 ^ 1024" using assms(1) by simp
  then show ?thesis by (simp add: int_to_float_def Let_def nd)
qed

lemma nearest_double_examples:
  "nearest_double (3 / 2) = 3 / 2" "nearest_double (5 / 2) = 5 / 2" "nearest_double 3 = 3"
  by code_simp+

lemma round_half_even_examples:
  "round_half_even 150 = 150" "round_half_even 250 = 250" "round_half_even 300 = 300"
  by code_simp+

lemma fmt_2f_examples:
  "fmt_2f (3 / 2) = ''1.50''" "fmt_2f (5 / 2) = ''2.50''" "fmt_2f 3 = ''3.00''"
  by (simp_all add: fmt_2f_def two_decimals_def round_half_even_examples str_nat.simps
      digit_chars)

lemma format_size_examples:
  "format_size (PInt 500) = Inr ''500 B''"
  "format_size (PInt 1500) = Inr ''1.50 KB''"
  "format_size (PInt 2500000) = Inr ''2.50 MB''"
  "format_size (PInt 3000000000) = Inr ''3.00 GB''"
proof -
  have "str_int 500 = ''500''" by (simp add: str_int_def str_nat.simps digit_chars)
  then show "format_size (PInt 500) = Inr ''500 B''" by (simp add: format_size_def)
  show "format_size (PInt 1500) = Inr ''1.50 KB''"
    using int_to_float_exact [of 1500]
    by (simp add: format_size_def bindE_def nearest_double_examples fmt_2f_examples)
  show "format_size (PInt 2500000) = Inr ''2.50 MB''"
    using int_to_float_exact [of 2500000]
    by (simp add: format_size_def bindE_def nearest_double_examples fmt_2f_examples)
  show "format_size (PInt 3000000000) = Inr ''3.00 GB''"
    using int_to_float_exact [of 3000000000]
    by (simp add: format_size_def bindE_def nearest_double_examples fmt_2f_examples)
qed

theorem format_size_tiers_witness:
  "format_size (PInt 500) = Inr ''500 B''
   \<and> format_size (PInt 1500) = Inr ''1.50 KB''
   \<and> format_size (PInt 2500000) = Inr ''2.50 MB''
   \<and> format_size (PInt 3000000000) = Inr ''3.00 GB''
   \<and> (\<exists>h. format_size (PInt 1500) = Inr (two_decimals h @ '' KB'')
          \<and> \<bar>of_nat h / 100 - (of_int 1500 :: rat) / 10 ^ 3\<bar>
               \<le> 1 / 200 + (of_int 1500 / 10 ^ 3) / 2 ^ 51)"
proof -
  have a: "(0::int) \<le> 1500" by simp
  have b: "(1500::int) < 2 ^ 1024 - 2 ^ 970" by simp
  have c: "(10::int) ^ 3 \<le> 1500 \<and> (1500::int) < 10 ^ 6" by simp
  have e: "\<exists>h. format_size (PInt 1500) = Inr (two_decimals h @ '' KB'')
          \<and> \<bar>of_nat h / 100 - (of_int 1500 :: rat) / 10 ^ 3\<bar>
               \<le> 1 / 200 + (of_int 1500 / 10 ^ 3) / 2 ^ 51"
    by (rule format_size_tiers [OF a b, THEN conjunct2, THEN conjunct1, rule_format, OF c])
  show ?thesis by (intro conjI format_size_examples e)
qed

lemma format_size_int_returns:
  assumes "0 \<le> n" and "n < 2 ^ 1024 - 2 ^ 970"
  shows "\<exists>h. format_size (PInt n) = Inr h"
proof (cases "n < 10 ^ 3")
  case True
  then show ?thesis by (simp add: format_size_def)
next
  case False
  then have n: "1 \<le> n" by simp
  have f: "int_to_float n = Inr (nearest_double (of_int n))"
    by (rule int_to_float_ok [OF n assms(2)])
  show ?thesis by (simp add: format_size_def bindE_def f)
qed

section \<open>Properties of format classification\<close>

lemma format_entry_dropped:
  "spec_kind d = None \<Longrightarrow> format_entry (PDict d) = Inr None"
  by (auto simp: spec_kind_def format_entry_def format_kind_def has_stream_url_def
      valid_codec_def Let_def split: if_splits bool.splits)

lemma format_entry_kept:
  assumes "spec_kind d = Some k" and "format_size (get_size_bytes d) = Inr h"
  shows "\<exists>e. format_entry (PDict d) = Inr (Some (PDict e)) \<and> dict_get e ''kind'' = PStr k
           \<and> dict_get e ''url'' = dict_get d ''url''"
  using assms
  by (auto simp: spec_kind_def format_entry_def format_kind_def has_stream_url_def
      valid_codec_def Let_def bindE_def dict_get_def dict_get_default_def
      split: if_splits bool.splits)

lemma formats_loop_kinds:
  assumes "\<forall>d \<in> set ds. spec_kind d \<noteq> None \<longrightarrow> (\<exists>h. format_size (get_size_bytes d) = Inr h)"
  shows "\<exists>out. formats_loop acc (map PDict ds) = Inr (acc @ out)
           \<and> kinds_of out = map (\<lambda>k. Inr (PStr k)) (List.map_filter spec_kind ds)"
  using assms
proof (induction ds arbitrary: acc)
  case Nil
  then show ?case by (simp add: kinds_of_def List.map_filter_simps)
next
  case (Cons d ds)
  show ?case
  proof (cases "spec_kind d")
    case None
    from Cons.IH [of acc] Cons.prems obtain out where
      "formats_loop acc (map PDict ds) = Inr (acc @ out)"
      "kinds_of out = map (\<lambda>k. Inr (PStr k)) (List.map_filter spec_kind ds)"
      by auto
    with None show ?thesis
      by (simp add: format_entry_dropped bindE_def List.map_filter_simps)
  next
    case (Some k)
    with Cons.prems obtain h where h: "format_size (get_size_bytes d) = Inr h" by auto
    from format_entry_kept [OF Some h] obtain e where
      e: "format_entry (PDict d) = Inr (Some (PDict e))" "dict_get e ''kind'' = PStr k"
      by blast
    from Cons.IH [of "acc @ [PDict e]"] Cons.prems obtain out where
      out: "formats_loop (acc @ [PDict e]) (map PDict ds) = Inr ((acc @ [PDict e]) @ out)"
      "kinds_of out = map (\<lambda>k. Inr (PStr k)) (List.map_filter spec_kind ds)"
      by auto
    have "formats_loop acc (map PDict (d # ds)) = Inr (acc @ (PDict e # out))"
      using e out by (simp add: bindE_def)
    moreover have "kinds_of (PDict e # out)
        = map (\<lambda>k. Inr (PStr k)) (List.map_filter spec_kind (d # ds))"
      using e out Some
      by (simp add: kinds_of_def List.map_filter_simps py_get_def py_get_default_def dict_get_def)
    ultimately show ?thesis by blast
  qed
qed

text \<open>
  Claim C4. For every raw format descriptor of the extraction result: with a stream URL
  and both a valid video and a valid audio codec it is listed as \<^verbatim>\<open>progressive\<close>, with
  only a valid video codec as \<^verbatim>\<open>video-only\<close>, with only a valid audio codec as
  \<^verbatim>\<open>audio-only\<close>; a descriptor without a stream URL is dropped whatever its codec
  fields, and so is one with neither codec valid. That is \<open>spec_kind\<close>, and the kinds of
  the list \<^verbatim>\<open>build_formats_list\<close> returns are those of the descriptors it keeps, in
  their order. (The call returns when the size of each kept descriptor can be printed.)
\<close>

theorem build_formats_list_classifies:
  assumes "py_get_default info ''formats'' (PList []) = Inr (PList (map PDict ds))"
    and "\<forall>d \<in> set ds. spec_kind d \<noteq> None \<longrightarrow> (\<exists>h. format_size (get_size_bytes d) = Inr h)"
  shows "\<exists>out. build_formats_list info = Inr out
           \<and> kinds_of out = map (\<lambda>k. Inr (PStr k)) (List.map_filter spec_kind ds)"
  using formats_loop_kinds [OF assms(2), of "[]"] assms(1)
  by (simp add: build_formats_list_def bindE_def py_iter_def)

theorem build_formats_list_classifies_witness:
  "\<exists>out. build_formats_list (PDict [(''title'', PStr ''t''), (''formats'', PList
        [PDict [(''url'', PStr ''u1''), (''vcodec'', PStr ''avc1''), (''acodec'', PStr ''mp4a''),
                (''filesize'', PInt 1500)],
         PDict [(''url'', PStr ''u2''), (''vcodec'', PStr ''vp9''), (''acodec'', PStr ''none'')],
         PDict [(''url'', PStr ''u3''), (''vcodec'', PStr ''none''), (''acodec'', PStr ''opus'')],
         PDict [(''url'', PStr ''u4''), (''vcodec'', PStr ''none''), (''acodec'', PStr ''none'')],
         PDict [(''vcodec'', PStr ''avc1''), (''acodec'', PStr ''mp4a'')],
         PDict [(''url'', PStr []), (''vcodec'', PStr ''avc1''), (''acodec'', PStr ''mp4a'')]])])
       = Inr out
     \<and> kinds_of out
         = [Inr (PStr ''progressive''), Inr (PStr ''video-only''), Inr (PStr ''audio-only'')]"
proof -
  define ds :: "(string \<times> pyval) list list" where "ds =
        [[(''url'', PStr ''u1''), (''vcodec'', PStr ''avc1''), (''acodec'', PStr ''mp4a''),
          (''filesize'', PInt 1500)],
         [(''url'', PStr ''u2''), (''vcodec'', PStr ''vp9''), (''acodec'', PStr ''none'')],
         [(''url'', PStr ''u3''), (''vcodec'', PStr ''none''), (''acodec'', PStr ''opus'')],
         [(''url'', PStr ''u4''), (''vcodec'', PStr ''none''), (''acodec'', PStr ''none'')],
         [(''vcodec'', PStr ''avc1''), (''acodec'', PStr ''mp4a'')],
         [(''url'', PStr []), (''vcodec'', PStr ''avc1''), (''acodec'', PStr ''mp4a'')]]"
  define info where "info = PDict [(''title'', PStr ''t''), (''formats'', PList (map PDict ds))]"
  have formats: "py_get_default info ''formats'' (PList []) = Inr (PList (map PDict ds))"
    by (simp add: info_def py_get_default_def dict_get_default_def)
  have "\<exists>h. format_size (PInt 1500) = Inr h" "\<exists>h. format_size (PInt 0) = Inr h"
    by (rule format_size_int_returns; simp)+
  then have sizes: "\<forall>d \<in> set ds. spec_kind d \<noteq> None
      \<longrightarrow> (\<exists>h. format_size (get_size_bytes d) = Inr h)"
    by (simp add: ds_def get_size_bytes_def py_or_def dict_get_def dict_get_default_def)
  have kinds: "List.map_filter spec_kind ds = [''progressive'', ''video-only'', ''audio-only'']"
    by (simp add: ds_def List.map_filter_simps spec_kind_def has_stream_url_def valid_codec_def
        dict_get_def dict_get_default_def)
  from build_formats_list_classifies [OF formats sizes] kinds
  show ?thesis by (simp add: info_def ds_def)
qed

text \<open>
  Claim C9. A raw descriptor that has a stream URL and whose video-codec and
  audio-codec fields are absent, or hold \<^verbatim>\<open>None\<close> instead of the sentinel string
  \<^verbatim>\<open>none\<close>, counts as having both codecs: it is listed as \<^verbatim>\<open>progressive\<close>, not
  dropped. (\<open>dict_get\<close> gives \<open>PNone\<close> for an absent field and for one that holds
  \<^verbatim>\<open>None\<close>.)
\<close>

theorem absent_codecs_progressive:
  assumes "truthy (dict_get d ''url'')"
    and "dict_get d ''vcodec'' = PNone" and "dict_get d ''acodec'' = PNone"
    and "format_size (get_size_bytes d) = Inr h"
  shows "\<exists>e. build_formats_list (PDict [(''formats'', PList [PDict d])]) = Inr [PDict e]
           \<and> dict_get e ''kind'' = PStr ''progressive''"
proof -
  have "spec_kind d = Some ''progressive''"
    using assms(1-3) by (simp add: spec_kind_def has_stream_url_def valid_codec_def)
  from format_entry_kept [OF this assms(4)] obtain e where
    "format_entry (PDict d) = Inr (Some (PDict e))" "dict_get e ''kind'' = PStr ''progressive''"
    by blast
  then show ?thesis
    by (simp add: build_formats_list_def bindE_def py_iter_def py_get_default_def
        dict_get_default_def)
qed

theorem absent_codecs_progressive_witness:
  "\<exists>e. build_formats_list (PDict [(''formats'', PList
        [PDict [(''url'', PStr ''https://cdn/stream''), (''acodec'', PNone)]])]) = Inr [PDict e]
     \<and> dict_get e ''kind'' = PStr ''progressive''"
proof -
  have "truthy (dict_get [(''url'', PStr ''https://cdn/stream''), (''acodec'', PNone)] ''url'')"
    "dict_get [(''url'', PStr ''https://cdn/stream''), (''acodec'', PNone)] ''vcodec'' = PNone"
    "dict_get [(''url'', PStr ''https://cdn/stream''), (''acodec'', PNone)] ''acodec'' = PNone"
    "format_size (get_size_bytes [(''url'', PStr ''https://cdn/stream''), (''acodec'', PNone)])
       = Inr (str_int 0 @ '' B'')"
    by (simp_all add: dict_get_def dict_get_default_def get_size_bytes_def py_or_def
        format_size_def)
  then show ?thesis by (rule absent_codecs_progressive)
qed

end
